theory Spec2Isabelle
  imports Complex_Main "HOL-Library.Power_By_Squaring"
begin

section \<open>The host's numbers\<close>

text \<open>
  The calculator's operands are annotated \<^verbatim>\<open>Union[int, float]\<close>: a Python \<^verbatim>\<open>int\<close>
  (unbounded) or a Python \<^verbatim>\<open>float\<close> (an IEEE 754 binary64 value). The operations of
  \<^verbatim>\<open>app/operations.py\<close> apply the operators \<^verbatim>\<open>+ - * / **\<close> and the comparisons
  \<^verbatim>\<open>==\<close> and \<^verbatim>\<open><\<close> to them, so the embedding starts with these operators.

  A float is a finite rational (the value of the double), the negative zero, an infinity
  (\<open>True\<close> for the negative one) or the NaN.
\<close>

datatype pyfloat = Finite rat | NegZero | Infinity bool | NaN

datatype number = PyInt int | PyFloat pyfloat

text \<open>What \<^verbatim>\<open>**\<close> can return: a number, or a complex number (real and imaginary part).\<close>

datatype pyval = Num number | Complex pyfloat pyfloat

text \<open>
  The exceptions that reach the handlers. \<open>ValueError\<close> carries its message, which the
  source fixes; the wording of the other three is chosen by the runtime and by the
  validation library. \<open>ValidationError\<close> is a subclass of \<open>ValueError\<close>.
\<close>

datatype exn = ValueError string | ZeroDivisionError | OverflowError | ValidationError

subsection \<open>Rounding a rational to the nearest double\<close>

function bit_length :: "int \<Rightarrow> nat" where
  "bit_length n = (if n \<le> 0 then 0 else Suc (bit_length (n div 2)))"
  by pat_completeness auto
termination
  by (relation "measure nat") auto

declare bit_length.simps [simp del]

definition pow2 :: "int \<Rightarrow> rat" where
  "pow2 e = (if 0 \<le> e then 2 ^ nat e else 1 / 2 ^ nat (- e))"

definition floor_log2 :: "rat \<Rightarrow> int" where
  \<comment> \<open>for \<open>0 < q\<close>: the \<open>e\<close> with \<open>2^e \<le> q < 2^(e+1)\<close>\<close>
  "floor_log2 q =
     (if 1 \<le> q then int (bit_length \<lfloor>q\<rfloor>) - 1
      else - int (bit_length (\<lceil>1 / q\<rceil> - 1)))"

definition round_half_even :: "rat \<Rightarrow> int" where
  "round_half_even x =
     (let n = \<lfloor>x\<rfloor>; d = x - of_int n
      in if d < 1 / 2 then n else if 1 / 2 < d then n + 1
         else if even n then n else n + 1)"

definition round_mag :: "rat \<Rightarrow> rat option" where
  \<comment> \<open>for \<open>0 < q\<close>: 53 significant bits, exponents from -1022 (below it the spacing stays
      \<open>2^-1074\<close>, the subnormal range) to 1023; \<open>None\<close> when the rounded value is out of range\<close>
  "round_mag q =
     (let e = max (floor_log2 q) (- 1022);
          ulp = pow2 (e - 52);
          r = of_int (round_half_even (q / ulp)) * ulp
      in if r < pow2 1024 then Some r else None)"

definition round_rat :: "rat \<Rightarrow> rat option" where
  "round_rat q =
     (if q = 0 then Some 0
      else if q < 0 then map_option uminus (round_mag (- q))
      else round_mag q)"

subsection \<open>Float arithmetic\<close>

fun fval :: "pyfloat \<Rightarrow> rat" where
  "fval (Finite q) = q"
| "fval _ = 0"

fun signbit :: "pyfloat \<Rightarrow> bool" where
  "signbit (Finite q) = (q < 0)"
| "signbit NegZero = True"
| "signbit (Infinity s) = s"
| "signbit NaN = False"

fun is_finite :: "pyfloat \<Rightarrow> bool" where
  "is_finite (Finite q) = True"
| "is_finite NegZero = True"
| "is_finite _ = False"

fun is_zero :: "pyfloat \<Rightarrow> bool" where
  "is_zero (Finite q) = (q = 0)"
| "is_zero NegZero = True"
| "is_zero _ = False"

definition zero_of :: "bool \<Rightarrow> pyfloat" where
  "zero_of s = (if s then NegZero else Finite 0)"

definition rounded :: "bool \<Rightarrow> rat \<Rightarrow> pyfloat" where
  \<comment> \<open>the double nearest to \<open>q\<close>; \<open>s\<close> is the sign of a zero result; overflow gives an infinity\<close>
  "rounded s q =
     (case round_rat q of
        None \<Rightarrow> Infinity (q < 0)
      | Some r \<Rightarrow> if r = 0 then zero_of s else Finite r)"

fun fneg :: "pyfloat \<Rightarrow> pyfloat" where
  "fneg (Finite q) = (if q = 0 then NegZero else Finite (- q))"
| "fneg NegZero = Finite 0"
| "fneg (Infinity s) = Infinity (\<not> s)"
| "fneg NaN = NaN"

fun fabs :: "pyfloat \<Rightarrow> pyfloat" where
  "fabs (Finite q) = Finite \<bar>q\<bar>"
| "fabs NegZero = Finite 0"
| "fabs (Infinity s) = Infinity False"
| "fabs NaN = NaN"

fun fadd :: "pyfloat \<Rightarrow> pyfloat \<Rightarrow> pyfloat" where
  "fadd NaN y = NaN"
| "fadd x NaN = NaN"
| "fadd (Infinity s) (Infinity t) = (if s = t then Infinity s else NaN)"
| "fadd (Infinity s) y = Infinity s"
| "fadd x (Infinity t) = Infinity t"
| "fadd x y =
     (let q = fval x + fval y
      in if q = 0 then zero_of (signbit x \<and> signbit y) else rounded (q < 0) q)"

definition fsub :: "pyfloat \<Rightarrow> pyfloat \<Rightarrow> pyfloat" where
  "fsub x y = fadd x (fneg y)"

fun fmul :: "pyfloat \<Rightarrow> pyfloat \<Rightarrow> pyfloat" where
  "fmul NaN y = NaN"
| "fmul x NaN = NaN"
| "fmul (Infinity s) y = (if is_zero y then NaN else Infinity (s \<noteq> signbit y))"
| "fmul x (Infinity t) = (if is_zero x then NaN else Infinity (signbit x \<noteq> t))"
| "fmul x y = rounded (signbit x \<noteq> signbit y) (fval x * fval y)"

fun fdiv :: "pyfloat \<Rightarrow> pyfloat \<Rightarrow> pyfloat" where
  \<comment> \<open>the divisor is not a zero: the caller has raised for it\<close>
  "fdiv NaN y = NaN"
| "fdiv x NaN = NaN"
| "fdiv (Infinity s) (Infinity t) = NaN"
| "fdiv (Infinity s) y = Infinity (s \<noteq> signbit y)"
| "fdiv x (Infinity t) = zero_of (signbit x \<noteq> t)"
| "fdiv x y = rounded (signbit x \<noteq> signbit y) (fval x / fval y)"

subsection \<open>Comparisons\<close>

text \<open>
  Python compares an \<^verbatim>\<open>int\<close> with a \<^verbatim>\<open>float\<close> by value, without converting: every
  number but the NaN has a place on the extended line (the first component orders the
  two infinities around the finite values), and a comparison with the NaN is false.
\<close>

fun ext :: "number \<Rightarrow> (int \<times> rat) option" where
  "ext (PyInt n) = Some (0, of_int n)"
| "ext (PyFloat (Finite q)) = Some (0, q)"
| "ext (PyFloat NegZero) = Some (0, 0)"
| "ext (PyFloat (Infinity s)) = Some (if s then - 1 else 1, 0)"
| "ext (PyFloat NaN) = None"

definition py_eq :: "number \<Rightarrow> number \<Rightarrow> bool" where
  "py_eq x y = (case (ext x, ext y) of (Some p, Some q) \<Rightarrow> p = q | _ \<Rightarrow> False)"

definition py_lt :: "number \<Rightarrow> number \<Rightarrow> bool" where
  "py_lt x y =
     (case (ext x, ext y) of
        (Some (i, p), Some (j, q)) \<Rightarrow> i < j \<or> (i = j \<and> p < q)
      | _ \<Rightarrow> False)"

definition py_le :: "number \<Rightarrow> number \<Rightarrow> bool" where
  "py_le x y = (py_lt x y \<or> py_eq x y)"

subsection \<open>The arithmetic operators\<close>

text \<open>
  Two ints are combined exactly. Otherwise both operands become floats first, which
  raises \<open>OverflowError\<close> for an int beyond the range of a double. The true division of
  two ints rounds the exact quotient once, and raises \<open>OverflowError\<close> when that is out
  of range.
\<close>

fun to_float :: "number \<Rightarrow> exn + pyfloat" where
  "to_float (PyFloat x) = Inr x"
| "to_float (PyInt n) =
     (case round_rat (of_int n) of None \<Rightarrow> Inl OverflowError | Some r \<Rightarrow> Inr (Finite r))"

definition bind :: "exn + 'a \<Rightarrow> ('a \<Rightarrow> exn + 'b) \<Rightarrow> exn + 'b" where
  "bind m f = (case m of Inl e \<Rightarrow> Inl e | Inr v \<Rightarrow> f v)"

definition float_op :: "(pyfloat \<Rightarrow> pyfloat \<Rightarrow> exn + 'a) \<Rightarrow> number \<Rightarrow> number \<Rightarrow> exn + 'a" where
  "float_op f a b = bind (to_float a) (\<lambda>x. bind (to_float b) (\<lambda>y. f x y))"

fun py_add :: "number \<Rightarrow> number \<Rightarrow> exn + number" where
  "py_add (PyInt m) (PyInt n) = Inr (PyInt (m + n))"
| "py_add a b = float_op (\<lambda>x y. Inr (PyFloat (fadd x y))) a b"

fun py_sub :: "number \<Rightarrow> number \<Rightarrow> exn + number" where
  "py_sub (PyInt m) (PyInt n) = Inr (PyInt (m - n))"
| "py_sub a b = float_op (\<lambda>x y. Inr (PyFloat (fsub x y))) a b"

fun py_mul :: "number \<Rightarrow> number \<Rightarrow> exn + number" where
  "py_mul (PyInt m) (PyInt n) = Inr (PyInt (m * n))"
| "py_mul a b = float_op (\<lambda>x y. Inr (PyFloat (fmul x y))) a b"

fun py_neg :: "number \<Rightarrow> number" where
  "py_neg (PyInt n) = PyInt (- n)"
| "py_neg (PyFloat x) = PyFloat (fneg x)"

definition float_div :: "pyfloat \<Rightarrow> pyfloat \<Rightarrow> exn + number" where
  "float_div x y = (if is_zero y then Inl ZeroDivisionError else Inr (PyFloat (fdiv x y)))"

fun py_truediv :: "number \<Rightarrow> number \<Rightarrow> exn + number" where
  "py_truediv (PyInt m) (PyInt n) =
     (if n = 0 then Inl ZeroDivisionError
      else case round_rat (of_int m / of_int n) of
             None \<Rightarrow> Inl OverflowError
           | Some r \<Rightarrow> Inr (PyFloat (if r = 0 then zero_of ((m < 0) \<noteq> (n < 0)) else Finite r)))"
| "py_truediv a b = float_op float_div a b"

subsection \<open>Exponentiation\<close>

text \<open>
  The runtime settles the special cases of a float power itself and leaves the rest to
  the C library's \<^verbatim>\<open>pow\<close> and to its own complex power. Their values are not part of this
  development: they are the two fields of \<open>host\<close>, and every statement below holds for
  every host. \<open>None\<close> is a range error.
\<close>

record host =
  libm_pow :: "pyfloat \<Rightarrow> pyfloat \<Rightarrow> pyfloat option"
  complex_pow :: "pyfloat \<Rightarrow> pyfloat \<Rightarrow> (pyfloat \<times> pyfloat) option"

fun is_inf :: "pyfloat \<Rightarrow> bool" where
  "is_inf (Infinity s) = True"
| "is_inf _ = False"

fun is_integer :: "pyfloat \<Rightarrow> bool" where
  "is_integer (Finite q) = (q = of_int \<lfloor>q\<rfloor>)"
| "is_integer NegZero = True"
| "is_integer _ = False"

fun is_odd_integer :: "pyfloat \<Rightarrow> bool" where
  "is_odd_integer (Finite q) = (q = of_int \<lfloor>q\<rfloor> \<and> odd \<lfloor>q\<rfloor>)"
| "is_odd_integer _ = False"

definition float_pow :: "host \<Rightarrow> pyfloat \<Rightarrow> pyfloat \<Rightarrow> exn + pyval" where
  "float_pow H iv iw =
     (if is_zero iw then Inr (Num (PyFloat (Finite 1)))
      else if iv = NaN then Inr (Num (PyFloat NaN))
      else if iw = NaN then Inr (Num (PyFloat (if iv = Finite 1 then Finite 1 else NaN)))
      else if is_inf iw then
        (if fabs iv = Finite 1 then Inr (Num (PyFloat (Finite 1)))
         else if (\<not> signbit iw) = py_lt (PyInt 1) (PyFloat (fabs iv))
           then Inr (Num (PyFloat (Infinity False)))
         else Inr (Num (PyFloat (Finite 0))))
      else if is_inf iv then
        (if \<not> signbit iw
           then Inr (Num (PyFloat (if is_odd_integer iw then iv else fabs iv)))
         else Inr (Num (PyFloat (if is_odd_integer iw then zero_of (signbit iv) else Finite 0))))
      else if is_zero iv then
        (if signbit iw then Inl ZeroDivisionError
         else Inr (Num (PyFloat (if is_odd_integer iw then iv else Finite 0))))
      else if signbit iv \<and> \<not> is_integer iw then
        (case complex_pow H iv iw of
           None \<Rightarrow> Inl OverflowError
         | Some (re, im) \<Rightarrow> Inr (Complex re im))
      else
        (let negate_result = (signbit iv \<and> is_odd_integer iw); av = fabs iv
         in if av = Finite 1
              then Inr (Num (PyFloat (if negate_result then Finite (- 1) else Finite 1)))
            else case libm_pow H av iw of
                   None \<Rightarrow> Inl OverflowError
                 | Some ix \<Rightarrow>
                     if is_inf ix then Inl OverflowError
                     else Inr (Num (PyFloat (if negate_result then fneg ix else ix)))))"

fun py_pow :: "host \<Rightarrow> number \<Rightarrow> number \<Rightarrow> exn + pyval" where
  "py_pow H (PyInt m) (PyInt n) =
     (if 0 \<le> n then Inr (Num (PyInt (m ^ nat n)))
      else float_op (float_pow H) (PyInt m) (PyInt n))"
| "py_pow H a b = float_op (float_pow H) a b"

section \<open>The operations of app/operations.py\<close>

text \<open>
  Each function logs its operands and its result and returns what the operator gives.
  The log lines are left out, here and in the handlers: logging is outside the contract
  of the operations. (They format the operands and the result as text. A runtime that
  limits the number of digits of an int it will print refuses that for ints beyond the
  limit, of several thousand digits by default; the embedding assumes the operands and
  results stay printable.)
  \<^verbatim>\<open>divide\<close> and \<^verbatim>\<open>power\<close> are \<open>divide_op\<close> and \<open>power_op\<close> here, beside the
  constants of the same names in the library.
\<close>

definition add :: "number \<Rightarrow> number \<Rightarrow> exn + number" where
  "add a b = py_add a b"

definition subtract :: "number \<Rightarrow> number \<Rightarrow> exn + number" where
  "subtract a b = py_sub a b"

definition multiply :: "number \<Rightarrow> number \<Rightarrow> exn + number" where
  "multiply a b = py_mul a b"

definition divide_op :: "number \<Rightarrow> number \<Rightarrow> exn + number" where
  "divide_op a b =
     (if py_eq b (PyInt 0) then Inl (ValueError ''Cannot divide by zero'')
      else py_truediv a b)"

definition power_op :: "host \<Rightarrow> number \<Rightarrow> number \<Rightarrow> exn + pyval" where
  "power_op H a b = py_pow H a b"

definition square_root :: "host \<Rightarrow> number \<Rightarrow> exn + pyval" where
  "square_root H a =
     (if py_lt a (PyInt 0)
        then Inl (ValueError ''Cannot calculate square root of negative number'')
      else py_pow H a (PyFloat (Finite (1 / 2))))"

definition percentage :: "number \<Rightarrow> number \<Rightarrow> exn + number" where
  "percentage a b = bind (py_mul a b) (\<lambda>p. py_truediv p (PyInt 100))"

section \<open>The handlers of main.py\<close>

text \<open>
  The request models hold the operands after the framework has validated them. The
  response model validates its \<open>result\<close> field as \<^verbatim>\<open>Union[int, float]\<close>: a complex
  number is refused with a \<open>ValidationError\<close>, inside the handler's \<^verbatim>\<open>try\<close>.
\<close>

record calculation_request =
  req_a :: number
  req_b :: number

record single_operand_request =
  sreq_a :: number

record calculation_response =
  result :: number
  operation :: string
  operands :: "string \<rightharpoonup> number"

definition CalculationResponse ::
    "pyval \<Rightarrow> string \<Rightarrow> (string \<rightharpoonup> number) \<Rightarrow> exn + calculation_response" where
  "CalculationResponse r name ops =
     (case r of
        Num n \<Rightarrow> Inr \<lparr>result = n, operation = name, operands = ops\<rparr>
      | Complex re im \<Rightarrow> Inl ValidationError)"

text \<open>
  \<open>str e\<close> is the text of an exception: the message itself for the \<open>ValueError\<close> the
  operations raise, and the runtime's own wording, kept symbolic, for the others.
\<close>

datatype message = Literal string | Str_of exn

fun str :: "exn \<Rightarrow> message" where
  "str (ValueError m) = Literal m"
| "str e = Str_of e"

fun is_ValueError :: "exn \<Rightarrow> bool" where
  "is_ValueError (ValueError m) = True"
| "is_ValueError ValidationError = True"
| "is_ValueError _ = False"

datatype http_exception = HTTPException nat message

type_synonym http_result = "http_exception + calculation_response"

definition status_code :: "http_result \<Rightarrow> nat" where
  \<comment> \<open>a handler that returns its response model is answered with 200\<close>
  "status_code r = (case r of Inr resp \<Rightarrow> 200 | Inl (HTTPException code detail) \<Rightarrow> code)"

definition two_operands :: "calculation_request \<Rightarrow> (string \<rightharpoonup> number)" where
  "two_operands calculation = [''a'' \<mapsto> req_a calculation, ''b'' \<mapsto> req_b calculation]"

definition except_Exception :: "exn + calculation_response \<Rightarrow> http_result" where
  \<comment> \<open>\<^verbatim>\<open>except Exception as e: raise HTTPException(status_code=400, detail=str(e))\<close>\<close>
  "except_Exception body =
     (case body of
        Inr resp \<Rightarrow> Inr resp
      | Inl e \<Rightarrow> Inl (HTTPException 400 (str e)))"

definition except_ValueError :: "exn + calculation_response \<Rightarrow> http_result" where
  \<comment> \<open>\<^verbatim>\<open>except ValueError\<close> first, with the exception's text and 400; then
      \<^verbatim>\<open>except Exception\<close>, with a fixed text and 500\<close>
  "except_ValueError body =
     (case body of
        Inr resp \<Rightarrow> Inr resp
      | Inl e \<Rightarrow>
          if is_ValueError e then Inl (HTTPException 400 (str e))
          else Inl (HTTPException 500 (Literal ''Internal server error'')))"

definition api_add :: "calculation_request \<Rightarrow> http_result" where
  "api_add calculation =
     except_Exception
       (bind (add (req_a calculation) (req_b calculation))
          (\<lambda>r. CalculationResponse (Num r) ''addition'' (two_operands calculation)))"

definition api_subtract :: "calculation_request \<Rightarrow> http_result" where
  "api_subtract calculation =
     except_Exception
       (bind (subtract (req_a calculation) (req_b calculation))
          (\<lambda>r. CalculationResponse (Num r) ''subtraction'' (two_operands calculation)))"

definition api_multiply :: "calculation_request \<Rightarrow> http_result" where
  "api_multiply calculation =
     except_Exception
       (bind (multiply (req_a calculation) (req_b calculation))
          (\<lambda>r. CalculationResponse (Num r) ''multiplication'' (two_operands calculation)))"

definition api_divide :: "calculation_request \<Rightarrow> http_result" where
  "api_divide calculation =
     except_ValueError
       (bind (divide_op (req_a calculation) (req_b calculation))
          (\<lambda>r. CalculationResponse (Num r) ''division'' (two_operands calculation)))"

definition api_power :: "host \<Rightarrow> calculation_request \<Rightarrow> http_result" where
  "api_power H calculation =
     except_Exception
       (bind (power_op H (req_a calculation) (req_b calculation))
          (\<lambda>r. CalculationResponse r ''power'' (two_operands calculation)))"

definition api_square_root :: "host \<Rightarrow> single_operand_request \<Rightarrow> http_result" where
  "api_square_root H calculation =
     except_ValueError
       (bind (square_root H (sreq_a calculation))
          (\<lambda>r. CalculationResponse r ''square_root'' [''a'' \<mapsto> sreq_a calculation]))"

definition api_percentage :: "calculation_request \<Rightarrow> http_result" where
  "api_percentage calculation =
     except_Exception
       (bind (percentage (req_a calculation) (req_b calculation))
          (\<lambda>r. CalculationResponse (Num r) ''percentage'' (two_operands calculation)))"

section \<open>Notions used in the statements\<close>

text \<open>
  A finite operand is an int or a float that is neither an infinity nor the NaN.
\<close>

fun finite_num :: "number \<Rightarrow> bool" where
  "finite_num (PyInt n) = True"
| "finite_num (PyFloat x) = is_finite x"

text \<open>
  Two evaluations agree when both raise the same exception, or both return and the
  values compare equal with Python's \<^verbatim>\<open>==\<close>.
\<close>

definition outcome_eq :: "exn + number \<Rightarrow> exn + number \<Rightarrow> bool" where
  "outcome_eq r s =
     (case (r, s) of
        (Inr v, Inr w) \<Rightarrow> py_eq v w
      | (Inl e, Inl f) \<Rightarrow> e = f
      | _ \<Rightarrow> False)"

text \<open>
  The largest double is \<open>2^1024 - 2^971\<close>; a magnitude halfway from it to \<open>2^1024\<close>, or
  beyond, rounds out of range. An operand is in double range when it is a float, or an
  int below that bound.
\<close>

definition overflow_threshold :: rat where
  "overflow_threshold = pow2 1024 - pow2 970"

fun in_double_range :: "number \<Rightarrow> bool" where
  "in_double_range (PyInt n) = (\<bar>of_int n\<bar> < overflow_threshold)"
| "in_double_range (PyFloat x) = True"

text \<open>
  The C library reports a range error for \<^verbatim>\<open>pow(a, 0.5)\<close>: it sets the error number, or
  returns an infinity.
\<close>

definition libm_range_error :: "host \<Rightarrow> number \<Rightarrow> bool" where
  "libm_range_error H a =
     (case to_float a of
        Inl e \<Rightarrow> False
      | Inr x \<Rightarrow> (case libm_pow H x (Finite (1 / 2)) of None \<Rightarrow> True | Some r \<Rightarrow> is_inf r))"


text \<open>
  A host for the concrete evaluations: it knows the three powers that the repository's
  own unit tests compute through the C library, \<^verbatim>\<open>4 ** 0.5\<close>, \<^verbatim>\<open>9 ** 0.5\<close> and
  \<^verbatim>\<open>2 ** -2\<close>, and reports a range error anywhere else.
\<close>

definition test_host :: host where
  "test_host =
     \<lparr>libm_pow = (\<lambda>x y.
          if x = Finite 4 \<and> y = Finite (1 / 2) then Some (Finite 2)
          else if x = Finite 9 \<and> y = Finite (1 / 2) then Some (Finite 3)
          else if x = Finite 2 \<and> y = Finite (- 2) then Some (Finite (1 / 4))
          else None),
      complex_pow = (\<lambda>x y. None)\<rparr>"

section \<open>Rounding: the binade of a rational\<close>

lemma pow2_powi: "pow2 e = 2 powi e"
  by (simp add: pow2_def power_int_def inverse_eq_divide power_one_over)

text \<open>For evaluation, the power is computed by squaring, on the integers.\<close>

lemma pow2_code [code]:
  "pow2 e = (if 0 \<le> e then of_int (efficient_funpow (*) 1 2 (nat e))
             else 1 / of_int (efficient_funpow (*) 1 2 (nat (- e))))"
  by (simp add: pow2_def power_by_squaring)

lemma pow2_pos [simp]: "0 < pow2 e"
  by (simp add: pow2_powi)

lemma pow2_add: "pow2 (a + b) = pow2 a * pow2 b"
  by (simp add: pow2_powi power_int_add)

lemma pow2_mono: "a \<le> b \<Longrightarrow> pow2 a \<le> pow2 b"
  by (simp add: pow2_powi power_int_increasing)

lemma pow2_strict_mono: "a < b \<Longrightarrow> pow2 a < pow2 b"
  by (simp add: pow2_powi power_int_strict_increasing)

lemma pow2_less_iff: "pow2 a < pow2 b \<longleftrightarrow> a < b"
  by (meson pow2_mono pow2_strict_mono leD leI)

lemma pow2_nat: "pow2 (int k) = 2 ^ k"
  by (simp add: pow2_def)

lemma pow2_0 [simp]: "pow2 0 = 1"
  by (simp add: pow2_def)

lemma bit_length_bounds:
  "0 < n \<Longrightarrow> 2 ^ (bit_length n - 1) \<le> n \<and> n < 2 ^ bit_length n"
proof (induction n rule: bit_length.induct)
  case (1 n)
  show ?case
  proof (cases "n = 1")
    case True
    then show ?thesis by (simp add: bit_length.simps[of 1] bit_length.simps[of 0])
  next
    case False
    with "1.prems" have h: "0 < n div 2" by simp
    from "1.IH" "1.prems" h
    have IH: "2 ^ (bit_length (n div 2) - 1) \<le> n div 2" "n div 2 < 2 ^ bit_length (n div 2)"
      by auto
    have pos: "0 < bit_length (n div 2)" using h by (simp add: bit_length.simps[of "n div 2"])
    have bl: "bit_length n = Suc (bit_length (n div 2))"
      using "1.prems" by (simp add: bit_length.simps[of n])
    have "(2::int) ^ (bit_length n - 1) = 2 * 2 ^ (bit_length (n div 2) - 1)"
      using bl pos by (cases "bit_length (n div 2)") auto
    moreover have "2 * (n div 2) \<le> n" by simp
    ultimately have lo: "2 ^ (bit_length n - 1) \<le> n" using IH(1) by linarith
    have "n < 2 * (n div 2) + 2" by linarith
    also have "\<dots> \<le> 2 * 2 ^ bit_length (n div 2)" using IH(2) by linarith
    finally have "n < 2 ^ bit_length n" by (simp add: bl)
    with lo show ?thesis by simp
  qed
qed

lemma bit_length_pos: "0 < n \<Longrightarrow> 0 < bit_length n"
  by (simp add: bit_length.simps[of n])

lemma floor_log2_bounds_ge1:
  assumes "0 < q" "1 \<le> q"
  shows "pow2 (floor_log2 q) \<le> q \<and> q < pow2 (floor_log2 q + 1)"
proof -
  define n where "n = \<lfloor>q\<rfloor>"
  have n: "0 < n" using assms(2) by (simp add: n_def)
  let ?k = "bit_length n"
  have k: "0 < ?k" using n by (rule bit_length_pos)
  from bit_length_bounds[OF n] have b: "2 ^ (?k - 1) \<le> n" "n < 2 ^ ?k" by auto
  have fl: "floor_log2 q = int (?k - 1)" using assms(2) k by (simp add: floor_log2_def n_def)
  have "pow2 (int (?k - 1)) = of_int (2 ^ (?k - 1))" by (simp add: pow2_nat)
  also have "\<dots> \<le> of_int n" using b(1) by (simp only: of_int_le_iff)
  also have "\<dots> \<le> q" by (simp add: n_def)
  finally have lo: "pow2 (floor_log2 q) \<le> q" by (simp add: fl)
  have "n + 1 \<le> 2 ^ ?k" using b(2) by simp
  then have "of_int (n + 1) \<le> (of_int (2 ^ ?k) :: rat)" by (simp only: of_int_le_iff)
  moreover have "q < of_int (n + 1)" using floor_correct[of q] by (simp add: n_def)
  moreover have "int (?k - 1) + 1 = int ?k" using k by simp
  ultimately have "q < pow2 (floor_log2 q + 1)" by (simp add: fl pow2_nat)
  with lo show ?thesis by simp
qed

lemma floor_log2_bounds_lt1:
  assumes "0 < q" "\<not> 1 \<le> q"
  shows "pow2 (floor_log2 q) \<le> q \<and> q < pow2 (floor_log2 q + 1)"
proof -
  have q1: "q < 1" using assms(2) by simp
  define m where "m = \<lceil>1 / q\<rceil> - 1"
  have iq: "1 < 1 / q" using assms(1) q1 by (simp add: field_simps)
  then have "1 < \<lceil>1 / q\<rceil>" by (simp add: less_ceiling_iff)
  then have m: "0 < m" unfolding m_def by linarith
  define k where "k = bit_length m"
  from bit_length_bounds[OF m] have b: "2 ^ (k - 1) \<le> m" "m < 2 ^ k" by (auto simp: k_def)
  have k: "0 < k" unfolding k_def using m by (rule bit_length_pos)
  have fl: "floor_log2 q = - int k" using assms(2) by (simp add: floor_log2_def m_def k_def)
  have pn: "pow2 (- int j) = 1 / 2 ^ j" for j by (simp add: pow2_powi power_int_minus_divide)
  have p1: "pow2 (- int k) = 1 / 2 ^ k" by (rule pn)
  have fl1: "floor_log2 q + 1 = - int (k - 1)" using k fl by linarith
  have p2: "pow2 (- int (k - 1)) = 1 / 2 ^ (k - 1)" by (rule pn)
  have c: "of_int m < 1 / q" "1 / q \<le> of_int m + 1"
    using ceiling_correct[of "1 / q"] unfolding m_def by auto
  have "m + 1 \<le> 2 ^ k" using b(2) by linarith
  then have "(of_int (m + 1) :: rat) \<le> of_int (2 ^ k)" by (simp only: of_int_le_iff)
  then have "(of_int m :: rat) + 1 \<le> 2 ^ k" by simp
  with c(2) have "1 / q \<le> 2 ^ k" by linarith
  then have "1 \<le> 2 ^ k * q" using assms(1) by (simp add: pos_divide_le_eq)
  then have lo: "1 / 2 ^ k \<le> q" by (simp add: pos_divide_le_eq mult.commute)
  have "(of_int (2 ^ (k - 1)) :: rat) \<le> of_int m" using b(1) by (simp only: of_int_le_iff)
  then have "(2::rat) ^ (k - 1) \<le> of_int m" by simp
  with c(1) have "2 ^ (k - 1) < 1 / q" by linarith
  then have "2 ^ (k - 1) * q < 1" using assms(1) by (simp add: pos_less_divide_eq)
  then have "q < 1 / 2 ^ (k - 1)" by (simp add: pos_less_divide_eq mult.commute)
  then have "q < pow2 (floor_log2 q + 1)" by (simp only: fl1 p2)
  moreover have "pow2 (floor_log2 q) \<le> q" using lo by (simp only: fl p1)
  ultimately show ?thesis by blast
qed

lemma floor_log2_bounds:
  "0 < q \<Longrightarrow> pow2 (floor_log2 q) \<le> q \<and> q < pow2 (floor_log2 q + 1)"
  using floor_log2_bounds_ge1 floor_log2_bounds_lt1 by blast

section \<open>Rounding: nearest integer, range and sign\<close>

lemma rhe_cases:
  "round_half_even x = \<lfloor>x\<rfloor> \<or> round_half_even x = \<lfloor>x\<rfloor> + 1"
  by (simp add: round_half_even_def Let_def)

lemma rhe_ge: "of_int k \<le> x \<Longrightarrow> k \<le> round_half_even x"
proof -
  assume "of_int k \<le> x"
  then have "k \<le> \<lfloor>x\<rfloor>" by (simp add: le_floor_iff)
  then show ?thesis using rhe_cases[of x] by linarith
qed

lemma rhe_le: "x \<le> of_int k \<Longrightarrow> round_half_even x \<le> k"
proof -
  assume a: "x \<le> of_int k"
  then have fk: "\<lfloor>x\<rfloor> \<le> k" by (simp add: floor_le_iff)
  show ?thesis
  proof (cases "\<lfloor>x\<rfloor> = k")
    case True
    with a have "x - of_int \<lfloor>x\<rfloor> \<le> 0" by simp
    then have "round_half_even x = \<lfloor>x\<rfloor>" by (simp add: round_half_even_def Let_def)
    with True show ?thesis by simp
  next
    case False
    with fk show ?thesis using rhe_cases[of x] by linarith
  qed
qed

lemma rhe_below_half: "x < of_int k - 1 / 2 \<Longrightarrow> round_half_even x \<le> k - 1"
proof -
  assume a: "x < of_int k - 1 / 2"
  then have "x < of_int k" by linarith
  then have fk: "\<lfloor>x\<rfloor> \<le> k - 1" by (simp add: floor_less_iff)
  show ?thesis
  proof (cases "\<lfloor>x\<rfloor> = k - 1")
    case True
    with a have "x - of_int \<lfloor>x\<rfloor> < 1 / 2" by simp
    then have "round_half_even x = \<lfloor>x\<rfloor>" by (simp add: round_half_even_def Let_def)
    with True show ?thesis by simp
  next
    case False
    with fk show ?thesis using rhe_cases[of x] by linarith
  qed
qed

lemma rhe_from_half:
  assumes "of_int k - 1 / 2 \<le> x" "even k"
  shows "k \<le> round_half_even x"
proof -
  have "of_int (k - 1) \<le> x" using assms(1) by simp
  then have fk: "k - 1 \<le> \<lfloor>x\<rfloor>" by (simp only: le_floor_iff)
  show ?thesis
  proof (cases "\<lfloor>x\<rfloor> = k - 1")
    case True
    then have odd: "odd \<lfloor>x\<rfloor>" using assms(2) by simp
    have d: "1 / 2 \<le> x - of_int \<lfloor>x\<rfloor>" using assms(1) True by simp
    have "round_half_even x = \<lfloor>x\<rfloor> + 1"
      using d odd by (auto simp: round_half_even_def Let_def)
    with True show ?thesis by simp
  next
    case False
    with fk have "k \<le> \<lfloor>x\<rfloor>" by linarith
    then show ?thesis using rhe_cases[of x] by linarith
  qed
qed

lemma rhe_error: "\<bar>of_int (round_half_even x) - x\<bar> \<le> 1 / 2"
proof -
  have "of_int \<lfloor>x\<rfloor> \<le> x" "x < of_int \<lfloor>x\<rfloor> + 1" by linarith+
  then show ?thesis by (auto simp: round_half_even_def Let_def abs_le_iff)
qed

lemma pow2_53: "pow2 53 = of_int (2 ^ 53)"
  using pow2_nat[of 53] by simp

lemma pow2_52: "pow2 52 = of_int (2 ^ 52)"
  using pow2_nat[of 52] by simp

lemma pow2_diff: "pow2 a = pow2 b * pow2 (a - b)"
  using pow2_add[of b "a - b"] by simp

lemma pow2_le_iff: "pow2 a \<le> pow2 b \<longleftrightarrow> a \<le> b"
  by (meson pow2_mono pow2_strict_mono leD leI)

lemma round_mag_eq:
  "round_mag q = (let e = max (floor_log2 q) (- 1022);
                      r = of_int (round_half_even (q / pow2 (e - 52))) * pow2 (e - 52)
                  in if r < pow2 1024 then Some r else None)"
  by (simp add: round_mag_def Let_def)

lemma round_mag_overflow:
  assumes "0 < q" "overflow_threshold \<le> q"
  shows "round_mag q = None"
proof -
  define fl where "fl = floor_log2 q"
  from floor_log2_bounds[OF assms(1)]
  have b: "pow2 fl \<le> q" "q < pow2 (fl + 1)" by (auto simp: fl_def)
  have "pow2 1024 = pow2 1023 * pow2 1" using pow2_add[of 1023 1] by simp
  then have p1024: "pow2 1024 = 2 * pow2 1023" by (simp add: pow2_def)
  have "pow2 970 \<le> pow2 1023" by (rule pow2_mono) simp
  then have "pow2 1023 \<le> overflow_threshold" by (simp add: overflow_threshold_def p1024)
  then have "pow2 1023 < pow2 (fl + 1)" using assms(2) b(2) by linarith
  then have fl: "1023 \<le> fl" by (simp add: pow2_less_iff)
  then have e: "max (floor_log2 q) (- 1022) = fl" by (simp add: fl_def)
  define ulp where "ulp = pow2 (fl - 52)"
  have ulp: "0 < ulp" by (simp add: ulp_def)
  define n where "n = round_half_even (q / ulp)"
  have "pow2 1024 \<le> of_int n * ulp"
  proof (cases "fl = 1023")
    case True
    have u: "ulp = pow2 971" by (simp add: ulp_def True)
    have "pow2 1024 = pow2 971 * pow2 53" using pow2_add[of 971 53] by simp
    then have a: "pow2 1024 = of_int (2 ^ 53) * ulp" by (simp add: u pow2_53)
    have "pow2 971 = pow2 970 * pow2 1" using pow2_add[of 970 1] by simp
    then have h: "pow2 970 = ulp / 2" by (simp add: u pow2_def)
    have "(of_int (2 ^ 53) - 1 / 2) * ulp \<le> q"
      using assms(2) by (simp add: overflow_threshold_def a h algebra_simps)
    then have "of_int (2 ^ 53) - 1 / 2 \<le> q / ulp" using ulp by (simp add: pos_le_divide_eq)
    then have "2 ^ 53 \<le> n" unfolding n_def by (rule rhe_from_half) simp
    then have "(of_int (2 ^ 53) :: rat) \<le> of_int n" by (simp only: of_int_le_iff)
    then have "of_int (2 ^ 53) * ulp \<le> of_int n * ulp" using ulp by (simp only: mult_le_cancel_right_pos)
    then show ?thesis by (simp only: a)
  next
    case False
    with fl have fl': "1024 \<le> fl" by simp
    have a: "pow2 fl = of_int (2 ^ 52) * ulp"
      using pow2_diff[of fl 52] by (simp add: ulp_def pow2_52)
    then have "of_int (2 ^ 52) * ulp \<le> q" using b(1) by simp
    then have "of_int (2 ^ 52) \<le> q / ulp" using ulp by (simp add: pos_le_divide_eq)
    then have "2 ^ 52 \<le> n" unfolding n_def by (rule rhe_ge)
    then have "(of_int (2 ^ 52) :: rat) \<le> of_int n" by (simp only: of_int_le_iff)
    then have "of_int (2 ^ 52) * ulp \<le> of_int n * ulp" using ulp by (simp only: mult_le_cancel_right_pos)
    then have "pow2 fl \<le> of_int n * ulp" by (simp only: a)
    moreover have "pow2 1024 \<le> pow2 fl" using fl' by (rule pow2_mono)
    ultimately show ?thesis by linarith
  qed
  then show ?thesis
    by (simp add: round_mag_eq e Let_def n_def ulp_def)
qed

lemma round_mag_in_range:
  assumes "0 < q" "q < overflow_threshold"
  shows "\<exists>r. round_mag q = Some r \<and> 0 \<le> r"
proof -
  define fl where "fl = floor_log2 q"
  from floor_log2_bounds[OF assms(1)]
  have b: "pow2 fl \<le> q" "q < pow2 (fl + 1)" by (auto simp: fl_def)
  define e where "e = max fl (- 1022)"
  have e: "max (floor_log2 q) (- 1022) = e" by (simp add: e_def fl_def)
  have "overflow_threshold < pow2 1024" by (simp add: overflow_threshold_def)
  then have "pow2 fl < pow2 1024" using b(1) assms(2) by linarith
  then have "fl < 1024" by (simp add: pow2_less_iff)
  then have e1023: "e \<le> 1023" by (simp add: e_def)
  define ulp where "ulp = pow2 (e - 52)"
  have ulp: "0 < ulp" by (simp add: ulp_def)
  define n where "n = round_half_even (q / ulp)"
  have "0 \<le> q / ulp" using assms(1) ulp by simp
  then have "of_int 0 \<le> q / ulp" by simp
  then have n0: "0 \<le> n" unfolding n_def by (rule rhe_ge)
  have "of_int n * ulp < pow2 1024"
  proof (cases "e = 1023")
    case True
    have u: "ulp = pow2 971" by (simp add: ulp_def True)
    have "pow2 1024 = pow2 971 * pow2 53" using pow2_add[of 971 53] by simp
    then have a: "pow2 1024 = of_int (2 ^ 53) * ulp" by (simp add: u pow2_53)
    have "pow2 971 = pow2 970 * pow2 1" using pow2_add[of 970 1] by simp
    then have h: "pow2 970 = ulp / 2" by (simp add: u pow2_def)
    have "q < (of_int (2 ^ 53) - 1 / 2) * ulp"
      using assms(2) by (simp add: overflow_threshold_def a h algebra_simps)
    then have "q / ulp < of_int (2 ^ 53) - 1 / 2" using ulp by (simp add: pos_divide_less_eq)
    then have "n \<le> 2 ^ 53 - 1" unfolding n_def by (rule rhe_below_half)
    then have "n < 2 ^ 53" by linarith
    then have "(of_int n :: rat) < of_int (2 ^ 53)" by (simp only: of_int_less_iff)
    then have "of_int n * ulp < of_int (2 ^ 53) * ulp" using ulp by (simp only: mult_less_cancel_right_pos)
    then show ?thesis by (simp only: a)
  next
    case False
    with e1023 have e': "e + 1 \<le> 1023" by simp
    have "fl + 1 \<le> e + 1" by (simp add: e_def)
    then have "pow2 (fl + 1) \<le> pow2 (e + 1)" by (rule pow2_mono)
    then have q: "q < pow2 (e + 1)" using b(2) by linarith
    have a: "pow2 (e + 1) = of_int (2 ^ 53) * ulp"
      using pow2_diff[of "e + 1" 53] by (simp add: ulp_def pow2_53)
    have "q / ulp < of_int (2 ^ 53)" using q ulp by (simp add: pos_divide_less_eq a)
    then have "q / ulp \<le> of_int (2 ^ 53)" by linarith
    then have "n \<le> 2 ^ 53" unfolding n_def by (rule rhe_le)
    then have "(of_int n :: rat) \<le> of_int (2 ^ 53)" by (simp only: of_int_le_iff)
    then have "of_int n * ulp \<le> of_int (2 ^ 53) * ulp" using ulp by (simp only: mult_le_cancel_right_pos)
    then have "of_int n * ulp \<le> pow2 (e + 1)" by (simp only: a)
    moreover have "pow2 (e + 1) \<le> pow2 1023" using e' by (rule pow2_mono)
    moreover have "pow2 1023 < pow2 1024" by (rule pow2_strict_mono) simp
    ultimately show ?thesis by linarith
  qed
  moreover have "0 \<le> of_int n * ulp" using n0 ulp by simp
  ultimately show ?thesis
    by (simp add: round_mag_eq e Let_def n_def ulp_def)
qed

lemma round_mag_positive:
  assumes "pow2 (- 1074) \<le> q" "round_mag q = Some r"
  shows "0 < r"
proof -
  have q0: "0 < q" using assms(1) pow2_pos[of "- 1074"] by linarith
  define fl where "fl = floor_log2 q"
  from floor_log2_bounds[OF q0] have b: "pow2 fl \<le> q" by (auto simp: fl_def)
  define e where "e = max fl (- 1022)"
  have e: "max (floor_log2 q) (- 1022) = e" by (simp add: e_def fl_def)
  define ulp where "ulp = pow2 (e - 52)"
  have ulp: "0 < ulp" by (simp add: ulp_def)
  define n where "n = round_half_even (q / ulp)"
  have "ulp \<le> q"
  proof (cases "fl \<le> - 1022")
    case True
    then have "ulp = pow2 (- 1074)" by (simp add: ulp_def e_def)
    with assms(1) show ?thesis by simp
  next
    case False
    then have "e = fl" by (simp add: e_def)
    then have "ulp \<le> pow2 fl" unfolding ulp_def by (simp add: pow2_le_iff)
    with b show ?thesis by linarith
  qed
  then have "of_int 1 \<le> q / ulp" using ulp by (simp add: pos_le_divide_eq)
  then have "1 \<le> n" unfolding n_def by (rule rhe_ge)
  then have "0 < of_int n * ulp" using ulp by simp
  moreover have "r = of_int n * ulp"
    using assms(2) by (simp add: round_mag_eq e Let_def n_def ulp_def split: if_splits)
  ultimately show ?thesis by simp
qed

text \<open>Rounding moves a value by at most half a unit in the last place.\<close>

lemma round_mag_error:
  assumes "0 < q" "round_mag q = Some r"
  shows "\<bar>r - q\<bar> \<le> max (q * pow2 (- 53)) (pow2 (- 1075))"
proof -
  define fl where "fl = floor_log2 q"
  from floor_log2_bounds[OF assms(1)] have b: "pow2 fl \<le> q" by (auto simp: fl_def)
  define e where "e = max fl (- 1022)"
  have e: "max (floor_log2 q) (- 1022) = e" by (simp add: e_def fl_def)
  define ulp where "ulp = pow2 (e - 52)"
  have ulp: "0 < ulp" by (simp add: ulp_def)
  define n where "n = round_half_even (q / ulp)"
  have r: "r = of_int n * ulp"
    using assms(2) by (simp add: round_mag_eq e Let_def n_def ulp_def split: if_splits)
  have "r - q = (of_int n - q / ulp) * ulp" using ulp by (simp add: r field_simps)
  then have "\<bar>r - q\<bar> = \<bar>of_int n - q / ulp\<bar> * ulp" using ulp by (simp add: abs_mult)
  also have "\<dots> \<le> 1 / 2 * ulp"
    using rhe_error[of "q / ulp"] ulp unfolding n_def by (simp only: mult_le_cancel_right_pos)
  also have "1 / 2 * ulp = pow2 (e - 53)"
    using pow2_add[of "e - 53" 1] by (simp add: ulp_def pow2_def[of 1])
  finally have half: "\<bar>r - q\<bar> \<le> pow2 (e - 53)" .
  show ?thesis
  proof (cases "fl \<le> - 1022")
    case True
    then have "e - 53 = - 1075" by (simp add: e_def)
    with half show ?thesis by simp
  next
    case False
    then have "e = fl" by (simp add: e_def)
    then have "pow2 (e - 53) = pow2 fl * pow2 (- 53)" using pow2_add[of fl "- 53"] by simp
    also have "\<dots> \<le> q * pow2 (- 53)" using b by simp
    finally show ?thesis using half by simp
  qed
qed

section \<open>Float arithmetic: symmetry and NaN-freedom\<close>

lemma round_rat_uminus: "round_rat (- q) = map_option uminus (round_rat q)"
  by (cases "q = 0"; cases "q < 0")
     (auto simp: round_rat_def option.map_comp comp_def option.map_ident)

lemma zero_of_neq_NaN [simp]: "zero_of s \<noteq> NaN"
  by (simp add: zero_of_def)

lemma rounded_neq_NaN [simp]: "rounded s q \<noteq> NaN"
  by (simp add: rounded_def split: option.splits)

lemma fadd_commute: "fadd x y = fadd y x"
  by (cases x; cases y) (auto simp: Let_def add.commute conj_commute)

lemma fmul_commute: "fmul x y = fmul y x"
proof (cases x; cases y)
  fix p q assume "x = Finite p" "y = Finite q"
  moreover have "((p < 0) \<noteq> (q < 0)) = ((q < 0) \<noteq> (p < 0))" by auto
  ultimately show ?thesis by (simp add: mult.commute)
qed (auto simp: mult.commute)

lemma fneg_finite [simp]: "is_finite (fneg x) = is_finite x"
  by (cases x) auto

lemma fadd_finite: "is_finite x \<Longrightarrow> is_finite y \<Longrightarrow> fadd x y \<noteq> NaN"
  by (cases x; cases y) (auto simp: Let_def)


lemma fmul_finite: "is_finite x \<Longrightarrow> is_finite y \<Longrightarrow> fmul x y \<noteq> NaN"
  by (cases x; cases y) auto


lemma py_eq_refl: "py_eq v v \<longleftrightarrow> v \<noteq> PyFloat NaN"
  by (cases v rule: ext.cases) (auto simp: py_eq_def)

lemma fsub_antisym:
  assumes "is_finite x" "is_finite y"
  shows "py_eq (PyFloat (fsub x y)) (PyFloat (fneg (fsub y x)))"
proof -
  define q where "q = fval x - fval y"
  show ?thesis
  proof (cases "q = 0")
    case True
    then show ?thesis using assms
      by (cases x; cases y) (auto simp: fsub_def q_def zero_of_def py_eq_def Let_def)
  next
    case False
    have a: "fsub x y = rounded (q < 0) q" using assms False
      by (cases x; cases y) (auto simp: fsub_def q_def Let_def)
    have b: "fsub y x = rounded (- q < 0) (- q)" using assms False
      by (cases x; cases y) (auto simp: fsub_def q_def Let_def)
    show ?thesis using False
      by (cases "round_rat q")
         (auto simp: a b rounded_def round_rat_uminus zero_of_def py_eq_def)
  qed
qed

lemma to_float_finite:
  "finite_num a \<Longrightarrow> to_float a = Inl OverflowError \<or> (\<exists>x. to_float a = Inr x \<and> is_finite x)"
  by (cases a) (auto split: option.splits)

lemma py_add_float:
  "\<not> (\<exists>m n. a = PyInt m \<and> b = PyInt n) \<Longrightarrow>
     py_add a b = float_op (\<lambda>x y. Inr (PyFloat (fadd x y))) a b"
  by (cases a; cases b) auto

lemma py_sub_float:
  "\<not> (\<exists>m n. a = PyInt m \<and> b = PyInt n) \<Longrightarrow>
     py_sub a b = float_op (\<lambda>x y. Inr (PyFloat (fsub x y))) a b"
  by (cases a; cases b) auto

lemma py_mul_float:
  "\<not> (\<exists>m n. a = PyInt m \<and> b = PyInt n) \<Longrightarrow>
     py_mul a b = float_op (\<lambda>x y. Inr (PyFloat (fmul x y))) a b"
  by (cases a; cases b) auto

lemma outcome_eq_float_op:
  assumes "finite_num a" "finite_num b"
    and "\<And>x y. is_finite x \<Longrightarrow> is_finite y \<Longrightarrow> py_eq (PyFloat (f x y)) (PyFloat (g y x))"
  shows "outcome_eq (float_op (\<lambda>x y. Inr (PyFloat (f x y))) a b)
                    (float_op (\<lambda>x y. Inr (PyFloat (g x y))) b a)"
  using to_float_finite[OF assms(1)] to_float_finite[OF assms(2)] assms(3)
  by (auto simp: float_op_def bind_def outcome_eq_def)


lemma map_sum_float_op:
  "map_sum id py_neg (float_op (\<lambda>x y. Inr (PyFloat (g x y))) a b)
     = float_op (\<lambda>x y. Inr (PyFloat (fneg (g x y)))) a b"
  by (auto simp: float_op_def bind_def split: sum.splits)




section \<open>Conversions and the errors of division\<close>

lemma round_rat_overflow_iff: "round_rat q = None \<longleftrightarrow> overflow_threshold \<le> \<bar>q\<bar>"
proof (cases "q = 0")
  case True
  have "pow2 970 < pow2 1024" by (rule pow2_strict_mono) simp
  then show ?thesis using True by (simp add: round_rat_def overflow_threshold_def)
next
  case False
  have "round_mag \<bar>q\<bar> = None \<longleftrightarrow> overflow_threshold \<le> \<bar>q\<bar>"
    using round_mag_overflow[of "\<bar>q\<bar>"] round_mag_in_range[of "\<bar>q\<bar>"] False
    by (cases "overflow_threshold \<le> \<bar>q\<bar>") auto
  then show ?thesis using False by (cases "q < 0") (auto simp: round_rat_def)
qed

lemma round_rat_sign:
  assumes "round_rat q = Some r"
  shows "(0 \<le> q \<longrightarrow> 0 \<le> r) \<and> (q \<le> 0 \<longrightarrow> r \<le> 0)"
proof -
  have pos: "0 \<le> r'" if "0 < p" "round_mag p = Some r'" for p r'
    using round_mag_overflow[of p] round_mag_in_range[of p] that
    by (cases "overflow_threshold \<le> p") auto
  show ?thesis
  proof (cases "q = 0")
    case True then show ?thesis using assms by (simp add: round_rat_def)
  next
    case False
    show ?thesis
    proof (cases "q < 0")
      case True
      then obtain r' where "round_mag (- q) = Some r'" "r = - r'"
        using assms by (auto simp: round_rat_def)
      with pos[of "- q" r'] True show ?thesis by simp
    next
      case F: False
      with False assms have "round_mag q = Some r" "0 < q" by (auto simp: round_rat_def)
      with pos[of q r] show ?thesis by simp
    qed
  qed
qed

lemma round_rat_of_int_nonzero:
  assumes "n \<noteq> 0" "round_rat (of_int n) = Some r"
  shows "r \<noteq> 0"
proof -
  have one: "pow2 (- 1074) \<le> 1" using pow2_mono[of "- 1074" 0] by simp
  have "1 \<le> \<bar>n\<bar>" using assms(1) by simp
  then have "(of_int 1 :: rat) \<le> of_int \<bar>n\<bar>" by (simp only: of_int_le_iff)
  then have ge: "pow2 (- 1074) \<le> \<bar>of_int n\<bar>" using one by simp
  show ?thesis
  proof (cases "n < 0")
    case True
    then obtain r' where r': "round_mag (- of_int n) = Some r'" "r = - r'"
      using assms by (auto simp: round_rat_def)
    have "pow2 (- 1074) \<le> - of_int n" using ge True by simp
    from round_mag_positive[OF this r'(1)] r'(2) show ?thesis by simp
  next
    case False
    with assms have r': "round_mag (of_int n) = Some r" by (auto simp: round_rat_def)
    have "pow2 (- 1074) \<le> of_int n" using ge False by simp
    from round_mag_positive[OF this r'] show ?thesis by simp
  qed
qed

lemma to_float_error: "to_float a = Inl e \<Longrightarrow> e = OverflowError \<and> \<not> in_double_range a"
  using round_rat_overflow_iff by (cases a) (auto split: option.splits)

lemma to_float_in_range: "in_double_range a \<Longrightarrow> \<exists>x. to_float a = Inr x"
  using round_rat_overflow_iff by (cases a) (auto split: option.splits)

lemma py_eq_zero_iff:
  "py_eq b (PyInt 0) \<longleftrightarrow> b = PyInt 0 \<or> b = PyFloat (Finite 0) \<or> b = PyFloat NegZero"
  by (cases b rule: ext.cases) (auto simp: py_eq_def)


lemma to_float_zero: "to_float b = Inr y \<Longrightarrow> is_zero y \<Longrightarrow> py_eq b (PyInt 0)"
proof (cases b)
  case (PyInt n)
  assume a: "to_float b = Inr y" "is_zero y"
  then obtain r where r: "round_rat (of_int n) = Some r" "y = Finite r"
    using PyInt by (auto split: option.splits)
  with a have "r = 0" by simp
  with round_rat_of_int_nonzero[of n r] r have "n = 0" by auto
  then show ?thesis using PyInt by (simp add: py_eq_def)
next
  case (PyFloat x)
  assume "to_float b = Inr y" "is_zero y"
  then show ?thesis using PyFloat by (cases x) (auto simp: py_eq_def)
qed

lemma to_float_negative:
  "to_float a = Inr x \<Longrightarrow> signbit x \<Longrightarrow> \<not> is_zero x \<Longrightarrow> py_lt a (PyInt 0)"
proof (cases a)
  case (PyInt n)
  assume a: "to_float a = Inr x" "signbit x" "\<not> is_zero x"
  then obtain r where r: "round_rat (of_int n) = Some r" "x = Finite r"
    using PyInt by (auto split: option.splits)
  with a have "r < 0" by simp
  with round_rat_sign[OF r(1)] have "n < 0" by (cases "n < 0") auto
  then show ?thesis using PyInt by (simp add: py_lt_def)
next
  case (PyFloat y)
  assume "to_float a = Inr x" "signbit x" "\<not> is_zero x"
  then show ?thesis using PyFloat by (cases y) (auto simp: py_lt_def)
qed

lemma int_quotient_in_range:
  assumes "n \<noteq> 0" "in_double_range (PyInt m)"
  shows "round_rat (of_int m / of_int n) \<noteq> None"
proof -
  have "1 \<le> \<bar>n\<bar>" using assms(1) by simp
  then have "(of_int 1 :: rat) \<le> of_int \<bar>n\<bar>" by (simp only: of_int_le_iff)
  then have n1: "(1::rat) \<le> \<bar>of_int n\<bar>" by simp
  have "\<bar>of_int m / of_int n :: rat\<bar> = \<bar>of_int m\<bar> / \<bar>of_int n\<bar>" by simp
  also have "\<dots> \<le> \<bar>of_int m\<bar>" using n1 by (simp add: divide_le_eq_1 pos_divide_le_eq mult_le_cancel_left1)
  finally have "\<bar>of_int m / of_int n :: rat\<bar> < overflow_threshold" using assms(2) by simp
  then show ?thesis by (simp add: round_rat_overflow_iff)
qed

lemma divide_error:
  assumes "divide_op a b = Inl e"
  shows "(e = ValueError ''Cannot divide by zero'' \<and> py_eq b (PyInt 0))
       \<or> (e = OverflowError \<and> \<not> py_eq b (PyInt 0) \<and> \<not> (in_double_range a \<and> in_double_range b))"
proof (cases "py_eq b (PyInt 0)")
  case True
  with assms show ?thesis by (simp add: divide_op_def)
next
  case False
  with assms have t: "py_truediv a b = Inl e" by (simp add: divide_op_def)
  show ?thesis
  proof (cases "\<exists>m n. a = PyInt m \<and> b = PyInt n")
    case True
    then obtain m n where ab: "a = PyInt m" "b = PyInt n" by auto
    with False have n: "n \<noteq> 0" by (simp add: py_eq_def)
    with t ab have "e = OverflowError" "round_rat (of_int m / of_int n) = None"
      by (auto split: option.splits)
    with int_quotient_in_range[OF n, of m] ab False show ?thesis by auto
  next
    case F: False
    then have "py_truediv a b = float_op float_div a b" by (cases a; cases b) auto
    with t have f: "float_op float_div a b = Inl e" by simp
    show ?thesis
    proof (cases "to_float a")
      case (Inl e')
      with f to_float_error[OF Inl] False show ?thesis by (simp add: float_op_def bind_def)
    next
      case (Inr x)
      show ?thesis
      proof (cases "to_float b")
        case (Inl e')
        with f Inr to_float_error[OF Inl] False show ?thesis by (simp add: float_op_def bind_def)
      next
        case Inr2: (Inr y)
        with f Inr have "float_div x y = Inl e" by (simp add: float_op_def bind_def)
        then have "is_zero y" by (auto simp: float_div_def split: if_splits)
        with to_float_zero[OF Inr2] False show ?thesis by simp
      qed
    qed
  qed
qed


lemma pow2_1024: "pow2 1024 = of_int (2 ^ 1024)"
  using pow2_nat[of 1024] by simp

lemma big_int_out_of_range: "\<not> in_double_range (PyInt (2 ^ 1024))"
proof -
  have "overflow_threshold \<le> pow2 1024"
    using less_imp_le[OF pow2_pos[of 970]] by (simp add: overflow_threshold_def)
  then have "\<not> \<bar>pow2 1024\<bar> < overflow_threshold"
    using less_imp_le[OF pow2_pos[of 1024]] by linarith
  then show ?thesis unfolding pow2_1024 by simp
qed



lemma round_rat_error:
  assumes "round_rat q = Some r"
  shows "\<bar>r - q\<bar> \<le> max (\<bar>q\<bar> * pow2 (- 53)) (pow2 (- 1075))"
proof (cases "q = 0")
  case True
  with assms have "r = 0" by (simp add: round_rat_def)
  with True show ?thesis using less_imp_le[OF pow2_pos[of "- 1075"]] by simp
next
  case False
  show ?thesis
  proof (cases "q < 0")
    case True
    then obtain r' where r': "round_mag (- q) = Some r'" "r = - r'"
      using assms by (auto simp: round_rat_def)
    from round_mag_error[OF _ r'(1)] True
    have "\<bar>r' - (- q)\<bar> \<le> max (- q * pow2 (- 53)) (pow2 (- 1075))" by simp
    moreover have "\<bar>r - q\<bar> = \<bar>r' - (- q)\<bar>" using r'(2) by simp
    moreover have "\<bar>q\<bar> = - q" using True by simp
    ultimately show ?thesis by simp
  next
    case F: False
    with False assms have "round_mag q = Some r" "0 < q" by (auto simp: round_rat_def)
    from round_mag_error[OF this(2) this(1)] \<open>0 < q\<close> show ?thesis by simp
  qed
qed

lemma rounded_error:
  assumes "rounded s q = Finite r"
  shows "\<bar>r - q\<bar> \<le> max (\<bar>q\<bar> * pow2 (- 53)) (pow2 (- 1075))"
proof (cases "round_rat q")
  case None
  with assms show ?thesis by (simp add: rounded_def)
next
  case (Some r')
  with assms have "r = r'" by (auto simp: rounded_def zero_of_def split: if_splits)
  with round_rat_error[OF Some] show ?thesis by simp
qed



lemma int_arithmetic_exact:
  "add (PyInt m) (PyInt n) = Inr (PyInt (m + n))"
  "subtract (PyInt m) (PyInt n) = Inr (PyInt (m - n))"
  "multiply (PyInt m) (PyInt n) = Inr (PyInt (m * n))"
  by (simp_all add: add_def subtract_def multiply_def)

section \<open>The square root and the handlers: auxiliary facts\<close>

lemma to_float_nonneg:
  assumes "\<not> py_lt a (PyInt 0)" "to_float a = Inr x"
  shows "x = NaN \<or> x = NegZero \<or> x = Infinity False \<or> (\<exists>q. x = Finite q \<and> 0 \<le> q)"
proof (cases x)
  case (Finite q)
  have "0 \<le> q"
  proof (rule ccontr)
    assume "\<not> 0 \<le> q"
    then have "signbit x" "\<not> is_zero x" using Finite by auto
    from to_float_negative[OF assms(2) this] assms(1) show False by simp
  qed
  with Finite show ?thesis by simp
next
  case (Infinity s)
  with assms show ?thesis by (cases a) (auto simp: py_lt_def split: option.splits)
qed auto

lemma float_pow_half:
  assumes "x = NaN \<or> x = NegZero \<or> x = Infinity False \<or> (\<exists>q. x = Finite q \<and> 0 \<le> q)"
  shows "float_pow H x (Finite (1 / 2)) =
     (if x = NaN then Inr (Num (PyFloat NaN))
      else if is_zero x then Inr (Num (PyFloat (Finite 0)))
      else if x = Infinity False then Inr (Num (PyFloat (Infinity False)))
      else if x = Finite 1 then Inr (Num (PyFloat (Finite 1)))
      else case libm_pow H x (Finite (1 / 2)) of
             None \<Rightarrow> Inl OverflowError
           | Some ix \<Rightarrow> if is_inf ix then Inl OverflowError else Inr (Num (PyFloat ix)))"
proof -
  have h: "\<lfloor>1 / 2 :: rat\<rfloor> = 0" by (rule floor_unique) simp_all
  show ?thesis using assms
    by (auto simp: float_pow_def h Let_def abs_if split: option.splits)
qed

lemma square_root_nonneg:
  assumes "\<not> py_lt a (PyInt 0)"
  shows "square_root H a = bind (to_float a) (\<lambda>x. float_pow H x (Finite (1 / 2)))"
  using assms by (cases a) (simp_all add: square_root_def float_op_def bind_def)

lemma square_root_error:
  assumes "square_root H a = Inl e"
  shows "(e = ValueError ''Cannot calculate square root of negative number'' \<and> py_lt a (PyInt 0))
       \<or> (e = OverflowError \<and> \<not> py_lt a (PyInt 0)
            \<and> (\<not> in_double_range a \<or> libm_range_error H a))"
proof (cases "py_lt a (PyInt 0)")
  case True
  with assms show ?thesis by (simp add: square_root_def)
next
  case False
  note sq = square_root_nonneg[OF False, of H]
  show ?thesis
  proof (cases "to_float a")
    case (Inl e')
    with to_float_error[OF Inl] assms sq False show ?thesis by (simp add: bind_def)
  next
    case (Inr x)
    with assms sq have f: "float_pow H x (Finite (1 / 2)) = Inl e" by (simp add: bind_def)
    from to_float_nonneg[OF False Inr] have
      "float_pow H x (Finite (1 / 2)) = Inl e \<Longrightarrow> e = OverflowError \<and> libm_range_error H a"
      by (subst (asm) float_pow_half)
         (auto simp: libm_range_error_def Inr split: if_splits option.splits)
    with f False show ?thesis by simp
  qed
qed

lemma square_root_value:
  assumes "square_root H a = Inr v"
  shows "\<exists>x. v = Num (PyFloat x)"
proof -
  have nl: "\<not> py_lt a (PyInt 0)" using assms by (auto simp: square_root_def split: if_splits)
  note sq = square_root_nonneg[OF nl, of H]
  show ?thesis
  proof (cases "to_float a")
    case (Inl e')
    with assms sq show ?thesis by (simp add: bind_def)
  next
    case (Inr x)
    with assms sq have f: "float_pow H x (Finite (1 / 2)) = Inr v" by (simp add: bind_def)
    from to_float_nonneg[OF nl Inr] f show ?thesis
      by (subst (asm) float_pow_half) (auto split: if_splits option.splits)
  qed
qed

lemma response_eq_iff:
  "(r :: calculation_response) = \<lparr>result = v, operation = n, operands = ops\<rparr>
     \<longleftrightarrow> result r = v \<and> operation r = n \<and> operands r = ops"
  by (cases r) auto

lemma except_Exception_Inr:
  "except_Exception body = Inr r \<longleftrightarrow> body = Inr r"
  by (auto simp: except_Exception_def split: sum.splits)

lemma except_ValueError_Inr:
  "except_ValueError body = Inr r \<longleftrightarrow> body = Inr r"
  by (auto simp: except_ValueError_def split: sum.splits)

lemma respond_Num:
  "bind m (\<lambda>v. CalculationResponse (Num v) n ops) = Inr r
     \<longleftrightarrow> m = Inr (result r) \<and> operation r = n \<and> operands r = ops"
  by (cases m) (auto simp: bind_def CalculationResponse_def response_eq_iff)

lemma respond_val:
  "bind m (\<lambda>v. CalculationResponse v n ops) = Inr r
     \<longleftrightarrow> m = Inr (Num (result r)) \<and> operation r = n \<and> operands r = ops"
proof (cases m)
  case (Inl e) then show ?thesis by (simp add: bind_def)
next
  case (Inr v)
  then show ?thesis
    by (cases v) (auto simp: bind_def CalculationResponse_def response_eq_iff)
qed

lemma respond_Num_Inl:
  "bind m (\<lambda>v. CalculationResponse (Num v) n ops) = Inl e \<longleftrightarrow> m = Inl e"
  by (cases m) (auto simp: bind_def CalculationResponse_def)

lemma respond_val_Inl:
  "bind m (\<lambda>v. CalculationResponse v n ops) = Inl e
     \<longleftrightarrow> m = Inl e \<or> ((\<exists>re im. m = Inr (Complex re im)) \<and> e = ValidationError)"
proof (cases m)
  case (Inl e') then show ?thesis by (simp add: bind_def)
next
  case (Inr v)
  then show ?thesis by (cases v) (auto simp: bind_def CalculationResponse_def)
qed

lemma except_Exception_Inl:
  "except_Exception body = Inl h \<longleftrightarrow> (\<exists>e. body = Inl e \<and> h = HTTPException 400 (str e))"
  by (auto simp: except_Exception_def split: sum.splits)

lemma except_ValueError_Inl:
  "except_ValueError body = Inl h \<longleftrightarrow>
     (\<exists>e. body = Inl e \<and> h = (if is_ValueError e then HTTPException 400 (str e)
                                 else HTTPException 500 (Literal ''Internal server error'')))"
  by (auto simp: except_ValueError_def split: sum.splits)

lemma api_divide_failure:
  "api_divide c = Inl h \<longleftrightarrow>
     (\<exists>e. divide_op (req_a c) (req_b c) = Inl e
        \<and> h = (if e = ValueError ''Cannot divide by zero''
                then HTTPException 400 (Literal ''Cannot divide by zero'')
                else HTTPException 500 (Literal ''Internal server error'')))"
proof -
  define m where "m = ''Cannot divide by zero''"
  define F where "F e = (if is_ValueError e then HTTPException 400 (str e)
                         else HTTPException 500 (Literal ''Internal server error''))" for e
  define G where "G e = (if e = ValueError m then HTTPException 400 (Literal m)
                         else HTTPException 500 (Literal ''Internal server error''))" for e
  have L: "api_divide c = Inl h \<longleftrightarrow> (\<exists>e. divide_op (req_a c) (req_b c) = Inl e \<and> h = F e)"
    unfolding F_def by (simp only: api_divide_def except_ValueError_Inl respond_Num_Inl)
  have FG: "F e = G e" if "divide_op (req_a c) (req_b c) = Inl e" for e
  proof -
    from divide_error[OF that] have "e = ValueError m \<or> e = OverflowError"
      unfolding m_def by blast
    then show ?thesis unfolding F_def G_def by auto
  qed
  have "(\<exists>e. divide_op (req_a c) (req_b c) = Inl e \<and> h = F e)
      \<longleftrightarrow> (\<exists>e. divide_op (req_a c) (req_b c) = Inl e \<and> h = G e)"
    using FG by metis
  with L show ?thesis unfolding G_def m_def by (simp only:)
qed

lemma api_square_root_failure:
  "api_square_root H s = Inl h \<longleftrightarrow>
     (\<exists>e. square_root H (sreq_a s) = Inl e
        \<and> h = (if e = ValueError ''Cannot calculate square root of negative number''
                then HTTPException 400 (Literal ''Cannot calculate square root of negative number'')
                else HTTPException 500 (Literal ''Internal server error'')))"
proof -
  define m where "m = ''Cannot calculate square root of negative number''"
  define F where "F e = (if is_ValueError e then HTTPException 400 (str e)
                         else HTTPException 500 (Literal ''Internal server error''))" for e
  define G where "G e = (if e = ValueError m then HTTPException 400 (Literal m)
                         else HTTPException 500 (Literal ''Internal server error''))" for e
  have b: "square_root H (sreq_a s) \<noteq> Inr (Complex re im)" for re im
    using square_root_value[of H "sreq_a s" "Complex re im"] by auto
  have L: "api_square_root H s = Inl h \<longleftrightarrow> (\<exists>e. square_root H (sreq_a s) = Inl e \<and> h = F e)"
    unfolding F_def
    by (simp only: api_square_root_def except_ValueError_Inl respond_val_Inl b) simp
  have FG: "F e = G e" if "square_root H (sreq_a s) = Inl e" for e
  proof -
    from square_root_error[OF that] have "e = ValueError m \<or> e = OverflowError"
      unfolding m_def by blast
    then show ?thesis unfolding F_def G_def by auto
  qed
  have "(\<exists>e. square_root H (sreq_a s) = Inl e \<and> h = F e)
      \<longleftrightarrow> (\<exists>e. square_root H (sreq_a s) = Inl e \<and> h = G e)"
    using FG by metis
  with L show ?thesis unfolding G_def m_def by (simp only:)
qed

section \<open>Exponentiation: auxiliary facts\<close>


lemma py_pow_float:
  "\<not> (\<exists>m n. a = PyInt m \<and> b = PyInt n \<and> 0 \<le> n) \<Longrightarrow>
     py_pow H a b = float_op (float_pow H) a b"
  by (cases a; cases b) auto



lemma to_float_zero_val:
  assumes "py_eq a (PyInt 0)"
  shows "\<exists>x. to_float a = Inr x \<and> is_zero x"
  using assms unfolding py_eq_zero_iff by (auto simp: round_rat_def)


lemma py_le_zero_not_lt: "py_le (PyInt 0) a \<Longrightarrow> \<not> py_lt a (PyInt 0)"
  by (cases a rule: ext.cases) (auto simp: py_le_def py_lt_def py_eq_def)


lemma float_pow_zero_exponent: "is_zero iw \<Longrightarrow> float_pow H iv iw = Inr (Num (PyFloat (Finite 1)))"
  by (simp add: float_pow_def)




section \<open>The four total operations\<close>



text \<open>
  Finiteness is needed: the sum of the two infinities is the NaN.
\<close>

lemma add_infinities_not_equal:
  "\<not> outcome_eq (add (PyFloat (Infinity False)) (PyFloat (Infinity True)))
                 (py_add (PyFloat (Infinity False)) (PyFloat (Infinity True)))"
  by (simp add: add_def float_op_def bind_def outcome_eq_def py_eq_def)

text \<open>
  Claim C7. For finite operands, \<^verbatim>\<open>add(a, b) == add(b, a)\<close>,
  \<^verbatim>\<open>multiply(a, b) == multiply(b, a)\<close> and \<^verbatim>\<open>subtract(a, b) == -subtract(b, a)\<close>: on
  each line both sides raise the same exception or return equal values.
\<close>

theorem add_multiply_commute_subtract_antisym:
  assumes "finite_num a" "finite_num b"
  shows "outcome_eq (add a b) (add b a)
       \<and> outcome_eq (multiply a b) (multiply b a)
       \<and> outcome_eq (subtract a b) (map_sum id py_neg (subtract b a))"
proof (cases "\<exists>m n. a = PyInt m \<and> b = PyInt n")
  case True
  then show ?thesis
    by (auto simp: add_def multiply_def subtract_def outcome_eq_def py_eq_def
                   add.commute mult.commute)
next
  case False
  then have ba: "\<not> (\<exists>m n. b = PyInt m \<and> a = PyInt n)" by auto
  have "outcome_eq (add a b) (add b a)"
    using outcome_eq_float_op[OF assms, of fadd fadd]
    by (simp add: add_def py_add_float[OF False] py_add_float[OF ba]
                  fadd_commute[of _ x for x] py_eq_refl fadd_finite)
  moreover have "outcome_eq (multiply a b) (multiply b a)"
    using outcome_eq_float_op[OF assms, of fmul fmul]
    by (simp add: multiply_def py_mul_float[OF False] py_mul_float[OF ba]
                  fmul_commute[of _ x for x] py_eq_refl fmul_finite)
  moreover have "outcome_eq (subtract a b) (map_sum id py_neg (subtract b a))"
    using outcome_eq_float_op[OF assms, of fsub "\<lambda>x y. fneg (fsub x y)"]
    by (simp add: subtract_def py_sub_float[OF False] py_sub_float[OF ba]
                  map_sum_float_op fsub_antisym)
  ultimately show ?thesis by simp
qed

theorem add_multiply_commute_subtract_antisym_witness:
  "finite_num (PyFloat (Finite (1 / 2))) \<and> finite_num (PyInt 3)
   \<and> outcome_eq (add (PyFloat (Finite (1 / 2))) (PyInt 3)) (add (PyInt 3) (PyFloat (Finite (1 / 2))))
   \<and> outcome_eq (multiply (PyFloat (Finite (1 / 2))) (PyInt 3))
        (multiply (PyInt 3) (PyFloat (Finite (1 / 2))))
   \<and> outcome_eq (subtract (PyFloat (Finite (1 / 2))) (PyInt 3))
        (map_sum id py_neg (subtract (PyInt 3) (PyFloat (Finite (1 / 2)))))"
  using add_multiply_commute_subtract_antisym [of "PyFloat (Finite (1 / 2))" "PyInt 3"] by simp


section \<open>Division\<close>




section \<open>The handlers\<close>

text \<open>
  Claim C8. On success every arithmetic handler answers 200 with an envelope that holds
  the computed result, the canonical name of the operation ("addition", "subtraction",
  "multiplication", "division", "power", "square_root", "percentage") and the operands
  under their names, as the caller supplied them. A handler returns a response exactly
  when its operation returns a number, and the response is that envelope.
\<close>

theorem handlers_success_envelope:
  "(api_add c = Inr r \<longleftrightarrow>
      add (req_a c) (req_b c) = Inr (result r) \<and> operation r = ''addition''
      \<and> operands r = [''a'' \<mapsto> req_a c, ''b'' \<mapsto> req_b c])
   \<and> (api_subtract c = Inr r \<longleftrightarrow>
      subtract (req_a c) (req_b c) = Inr (result r) \<and> operation r = ''subtraction''
      \<and> operands r = [''a'' \<mapsto> req_a c, ''b'' \<mapsto> req_b c])
   \<and> (api_multiply c = Inr r \<longleftrightarrow>
      multiply (req_a c) (req_b c) = Inr (result r) \<and> operation r = ''multiplication''
      \<and> operands r = [''a'' \<mapsto> req_a c, ''b'' \<mapsto> req_b c])
   \<and> (api_divide c = Inr r \<longleftrightarrow>
      divide_op (req_a c) (req_b c) = Inr (result r) \<and> operation r = ''division''
      \<and> operands r = [''a'' \<mapsto> req_a c, ''b'' \<mapsto> req_b c])
   \<and> (api_power H c = Inr r \<longleftrightarrow>
      power_op H (req_a c) (req_b c) = Inr (Num (result r)) \<and> operation r = ''power''
      \<and> operands r = [''a'' \<mapsto> req_a c, ''b'' \<mapsto> req_b c])
   \<and> (api_square_root H s = Inr r \<longleftrightarrow>
      square_root H (sreq_a s) = Inr (Num (result r)) \<and> operation r = ''square_root''
      \<and> operands r = [''a'' \<mapsto> sreq_a s])
   \<and> (api_percentage c = Inr r \<longleftrightarrow>
      percentage (req_a c) (req_b c) = Inr (result r) \<and> operation r = ''percentage''
      \<and> operands r = [''a'' \<mapsto> req_a c, ''b'' \<mapsto> req_b c])
   \<and> status_code (Inr r) = 200"
  by (simp add: api_add_def api_subtract_def api_multiply_def api_divide_def api_power_def
        api_square_root_def api_percentage_def except_Exception_Inr except_ValueError_Inr
        respond_Num respond_val two_operands_def status_code_def)

theorem handlers_success_envelope_witness:
  "api_add \<lparr>req_a = PyInt 2, req_b = PyInt 3\<rparr>
     = Inr \<lparr>result = PyInt 5, operation = ''addition'',
            operands = [''a'' \<mapsto> PyInt 2, ''b'' \<mapsto> PyInt 3]\<rparr>"
  using handlers_success_envelope
    [of "\<lparr>req_a = PyInt 2, req_b = PyInt 3\<rparr>"
        "\<lparr>result = PyInt 5, operation = ''addition'',
          operands = [''a'' \<mapsto> PyInt 2, ''b'' \<mapsto> PyInt 3]\<rparr>"]
  by (simp add: add_def)

text \<open>
  Claim C3. In the divide and square-root handlers only the domain violation is surfaced,
  as 400 with its message; every other failure becomes 500 with the text
  "Internal server error". In the other five handlers every failure becomes 400 with the
  text of the exception (for power that includes the refusal of a complex result by the
  response model).
\<close>

theorem handlers_failure_mapping:
  "(api_divide c = Inl h \<longleftrightarrow>
     (\<exists>e. divide_op (req_a c) (req_b c) = Inl e
        \<and> h = (if e = ValueError ''Cannot divide by zero''
                then HTTPException 400 (Literal ''Cannot divide by zero'')
                else HTTPException 500 (Literal ''Internal server error''))))
   \<and> (api_square_root H s = Inl h \<longleftrightarrow>
     (\<exists>e. square_root H (sreq_a s) = Inl e
        \<and> h = (if e = ValueError ''Cannot calculate square root of negative number''
                then HTTPException 400 (Literal ''Cannot calculate square root of negative number'')
                else HTTPException 500 (Literal ''Internal server error''))))
   \<and> (api_add c = Inl h \<longleftrightarrow>
        (\<exists>e. add (req_a c) (req_b c) = Inl e \<and> h = HTTPException 400 (str e)))
   \<and> (api_subtract c = Inl h \<longleftrightarrow>
        (\<exists>e. subtract (req_a c) (req_b c) = Inl e \<and> h = HTTPException 400 (str e)))
   \<and> (api_multiply c = Inl h \<longleftrightarrow>
        (\<exists>e. multiply (req_a c) (req_b c) = Inl e \<and> h = HTTPException 400 (str e)))
   \<and> (api_percentage c = Inl h \<longleftrightarrow>
        (\<exists>e. percentage (req_a c) (req_b c) = Inl e \<and> h = HTTPException 400 (str e)))
   \<and> (api_power H c = Inl h \<longleftrightarrow>
        (\<exists>e. (power_op H (req_a c) (req_b c) = Inl e
              \<or> (\<exists>re im. power_op H (req_a c) (req_b c) = Inr (Complex re im)) \<and> e = ValidationError)
           \<and> h = HTTPException 400 (str e)))"
proof (intro conjI)
  show "api_divide c = Inl h \<longleftrightarrow>
     (\<exists>e. divide_op (req_a c) (req_b c) = Inl e
        \<and> h = (if e = ValueError ''Cannot divide by zero''
                then HTTPException 400 (Literal ''Cannot divide by zero'')
                else HTTPException 500 (Literal ''Internal server error'')))"
    by (rule api_divide_failure)
  show "api_square_root H s = Inl h \<longleftrightarrow>
     (\<exists>e. square_root H (sreq_a s) = Inl e
        \<and> h = (if e = ValueError ''Cannot calculate square root of negative number''
                then HTTPException 400 (Literal ''Cannot calculate square root of negative number'')
                else HTTPException 500 (Literal ''Internal server error'')))"
    by (rule api_square_root_failure)
qed (simp_all add: api_add_def api_subtract_def api_multiply_def api_percentage_def api_power_def
       except_Exception_Inl respond_Num_Inl respond_val_Inl)

theorem handlers_failure_mapping_witness:
  "api_divide \<lparr>req_a = PyInt 5, req_b = PyInt 0\<rparr>
     = Inl (HTTPException 400 (Literal ''Cannot divide by zero''))"
  using handlers_failure_mapping
    [of "\<lparr>req_a = PyInt 5, req_b = PyInt 0\<rparr>"
        "HTTPException 400 (Literal ''Cannot divide by zero'')"]
  by (simp add: divide_op_def py_eq_def)




section \<open>Power\<close>



text \<open>
  With a float zero as the exponent the same holds whenever the base is in double range;
  an int base beyond it fails in the conversion, before the power is taken.
\<close>

lemma power_any_zero:
  "py_eq z (PyInt 0) \<Longrightarrow> in_double_range a \<Longrightarrow>
     \<exists>r. power_op H a z = Inr (Num r) \<and> py_eq r (PyInt 1)"
proof -
  assume z: "py_eq z (PyInt 0)" and a: "in_double_range a"
  from to_float_zero_val[OF z] obtain y where y: "to_float z = Inr y" "is_zero y" by blast
  from to_float_in_range[OF a] obtain x where x: "to_float a = Inr x" by blast
  show ?thesis
  proof (cases "\<exists>m n. a = PyInt m \<and> z = PyInt n \<and> 0 \<le> n")
    case True
    then show ?thesis using z by (auto simp: power_op_def py_eq_def)
  next
    case False
    from py_pow_float[OF False] x y show ?thesis
      by (simp add: power_op_def float_op_def bind_def float_pow_zero_exponent py_eq_def)
  qed
qed

lemma power_huge_base_float_zero:
  "power_op H (PyInt (2 ^ 1024)) (PyFloat (Finite 0)) = Inl OverflowError"
proof -
  have "round_rat (of_int (2 ^ 1024)) = None"
    using big_int_out_of_range by (simp add: round_rat_overflow_iff)
  then show ?thesis by (simp add: power_op_def float_op_def bind_def)
qed




section \<open>Square root\<close>

text \<open>
  Claim C10. For \<open>a \<ge> 0\<close>, \<^verbatim>\<open>square_root(a)\<close> is \<^verbatim>\<open>power(a, 0.5)\<close>: the same value or
  the same exception.
\<close>

theorem square_root_is_power_half:
  "py_le (PyInt 0) a \<Longrightarrow> square_root H a = power_op H a (PyFloat (Finite (1 / 2)))"
  by (simp add: square_root_def power_op_def py_le_zero_not_lt)

theorem square_root_is_power_half_witness:
  "py_le (PyInt 0) (PyFloat (Finite 9))
   \<and> square_root test_host (PyFloat (Finite 9)) = power_op test_host (PyFloat (Finite 9)) (PyFloat (Finite (1 / 2)))"
  using square_root_is_power_half [of "PyFloat (Finite 9)" test_host]
  by (simp add: py_le_def py_lt_def)




section \<open>The repository's unit tests, evaluated\<close>

text \<open>
  Some assertions of \<^verbatim>\<open>tests/test_operations.py\<close>, computed in the embedding:
  \<^verbatim>\<open>divide(7, 2) == 3.5\<close>, \<^verbatim>\<open>divide(0, -5) == 0\<close> (the negative zero),
  \<^verbatim>\<open>divide(1, 3)\<close> (the double nearest to a third), \<^verbatim>\<open>power(2, 3) == 8\<close>,
  \<^verbatim>\<open>power(0, 0) == 1\<close>, \<^verbatim>\<open>power(2, -2) == 0.25\<close>, \<^verbatim>\<open>power(9, 0.5) == 3.0\<close>,
  \<^verbatim>\<open>square_root(4) == 2.0\<close>, \<^verbatim>\<open>square_root(0) == 0.0\<close>,
  \<^verbatim>\<open>percentage(200, 25) == 50.0\<close> and \<^verbatim>\<open>add(0.5, 0.3)\<close> (the doubles nearest to 0.3
  and to 0.8).
\<close>

lemma test_divide:
  "divide_op (PyInt 7) (PyInt 2) = Inr (PyFloat (Finite (7 / 2)))"
  "divide_op (PyInt 0) (PyInt (- 5)) = Inr (PyFloat NegZero)"
  "divide_op (PyInt 1) (PyInt 3) = Inr (PyFloat (Finite (6004799503160661 / 18014398509481984)))"
  by code_simp+

lemma test_power:
  "power_op test_host (PyInt 2) (PyInt 3) = Inr (Num (PyInt 8))"
  "power_op test_host (PyInt 0) (PyInt 0) = Inr (Num (PyInt 1))"
  "power_op test_host (PyInt 2) (PyInt (- 2)) = Inr (Num (PyFloat (Finite (1 / 4))))"
  "power_op test_host (PyInt 9) (PyFloat (Finite (1 / 2))) = Inr (Num (PyFloat (Finite 3)))"
  by code_simp+

lemma test_square_root:
  "square_root test_host (PyInt 4) = Inr (Num (PyFloat (Finite 2)))"
  "square_root test_host (PyInt 0) = Inr (Num (PyFloat (Finite 0)))"
  by code_simp+

lemma test_percentage:
  "percentage (PyInt 200) (PyInt 25) = Inr (PyFloat (Finite 50))"
  by code_simp

lemma test_add_floats:
  "add (PyFloat (Finite (1 / 2))) (PyFloat (Finite (5404319552844595 / 18014398509481984)))
     = Inr (PyFloat (Finite (3602879701896397 / 4503599627370496)))"
  by code_simp

end
